theory Spec2Isabelle
  imports Main "HOL-Library.FSet" "HOL-Library.Product_Lexorder"
begin

section \<open>Data model\<close>

text \<open>
  A cell is a Python tuple \<open>(row, col)\<close> of unbounded integers.  A Python \<open>set\<close> of
  cells is always finite, so it is a \<open>cell fset\<close>: \<open>len\<close> is \<open>fcard\<close>, truthiness of a
  set is \<open>\<noteq> {||}\<close>, \<open>issubset\<close> is \<open>|\<subseteq>|\<close>, set difference is \<open>|-|\<close>.
\<close>

type_synonym cell = "int \<times> int"

subsection \<open>class Sentence\<close>

record sentence =
  cells :: "cell fset"
  count :: int

text \<open>\<open>known_mines\<close> and \<open>known_safes\<close> return \<open>self.cells\<close> or Python's \<open>None\<close>.\<close>

definition known_mines :: "sentence \<Rightarrow> cell fset option" where
  "known_mines s =
     (if fcard (cells s) \<noteq> 0 \<and> int (fcard (cells s)) = count s then Some (cells s)
      else None)"

definition known_safes :: "sentence \<Rightarrow> cell fset option" where
  "known_safes s =
     (if fcard (cells s) \<noteq> 0 \<and> count s \<le> 0 then Some (cells s) else None)"

text \<open>\<open>Sentence.mark_mine\<close> and \<open>Sentence.mark_safe\<close> mutate the sentence; the model
  returns the new value.\<close>

definition sentence_mark_mine :: "cell \<Rightarrow> sentence \<Rightarrow> sentence" where
  "sentence_mark_mine c s =
     (if cells s \<noteq> {||} \<and> c |\<in>| cells s
      then s\<lparr>cells := cells s |-| {|c|}, count := count s - 1\<rparr>
      else s)"

definition sentence_mark_safe :: "cell \<Rightarrow> sentence \<Rightarrow> sentence" where
  "sentence_mark_safe c s =
     (if cells s \<noteq> {||} \<and> c |\<in>| cells s
      then s\<lparr>cells := cells s |-| {|c|}\<rparr>
      else s)"

subsection \<open>class MinesweeperAI\<close>

text \<open>
  The knowledge base is a Python list of \<open>Sentence\<close> objects that are mutated in place.
  The model keeps a list of sentence values.  The only place where one object can sit
  at two positions of the list is the list built by \<open>get_subset_knowledge\<close>; all later
  writes go through \<open>Sentence.mark_mine\<close> and \<open>Sentence.mark_safe\<close>, whose second
  application with the same cell changes nothing, so a shared object and two equal
  values evolve alike.
\<close>

record ai =
  height :: int
  width :: int
  moves_made :: "cell fset"
  mines :: "cell fset"
  safes :: "cell fset"
  knowledge :: "sentence list"

definition init_ai :: "int \<Rightarrow> int \<Rightarrow> ai" where
  "init_ai h w =
     \<lparr>height = h, width = w, moves_made = {||}, mines = {||}, safes = {||},
      knowledge = []\<rparr>"

definition mark_mine :: "cell \<Rightarrow> ai \<Rightarrow> ai" where
  "mark_mine c a =
     a\<lparr>mines := finsert c (mines a), knowledge := map (sentence_mark_mine c) (knowledge a)\<rparr>"

definition mark_safe :: "cell \<Rightarrow> ai \<Rightarrow> ai" where
  "mark_safe c a =
     a\<lparr>safes := finsert c (safes a), knowledge := map (sentence_mark_safe c) (knowledge a)\<rparr>"

text \<open>
  \<open>get_neighbours\<close>: the two \<open>if\<close>/\<open>elif\<close> chains adjust \<open>up\<close>/\<open>down\<close> and
  \<open>left\<close>/\<open>right\<close>; \<open>range(up, down + 1)\<close> is the integer interval \<open>[up..down]\<close>.
\<close>

definition get_neighbours :: "cell \<Rightarrow> ai \<Rightarrow> cell fset" where
  "get_neighbours cell a =
     (let up = fst cell - 1;
          down = fst cell + 1;
          left = snd cell - 1;
          right = snd cell + 1;
          (up, down) =
             (if fst cell = 0 then (fst cell, down)
              else if fst cell = height a - 1 then (up, height a - 1)
              else (up, down));
          (left, right) =
             (if snd cell = 0 then (snd cell, right)
              else if snd cell = width a - 1 then (left, width a - 1)
              else (left, right))
      in fset_of_list
           (filter (\<lambda>rc. rc |\<notin>| safes a)
              (concat (map (\<lambda>row. map (\<lambda>col. (row, col)) [left..right]) [up..down]))))"

text \<open>
  \<open>update_with_new_sentence\<close>.  The inner loops run over a copy of a set; the copy is
  enumerated in sorted order here; \<open>mark_all_mines_any_order\<close> and
  \<open>mark_all_safes_any_order\<close> below show that the order does not matter.  The counter \<open>changed_things\<close> is threaded with the state.
\<close>

definition mark_all_mines :: "cell list \<Rightarrow> ai \<times> nat \<Rightarrow> ai \<times> nat" where
  "mark_all_mines ms = fold (\<lambda>mine (a, changed). (mark_mine mine a, changed + 1)) ms"

definition mark_all_safes :: "cell list \<Rightarrow> ai \<times> nat \<Rightarrow> ai \<times> nat" where
  "mark_all_safes ss = fold (\<lambda>safe (a, changed). (mark_safe safe a, changed + 1)) ss"

text \<open>
  The body of \<open>for sent in self.knowledge\<close> for the sentence at position \<open>i\<close>.  Both
  \<open>mines\<close> and \<open>safes\<close> are read before any marking.  \<open>safes\<close> is the very set object
  \<open>sent.cells\<close>, and \<open>deepcopy(safes)\<close> is taken after the mines loop has run, so the
  second loop runs over the cells the sentence has at that moment.
\<close>

definition update_sentence :: "nat \<Rightarrow> ai \<times> nat \<Rightarrow> ai \<times> nat" where
  "update_sentence i st =
     (let sent = knowledge (fst st) ! i;
          mines = known_mines sent;
          safes = known_safes sent;
          st1 = (case mines of None \<Rightarrow> st
                 | Some ms \<Rightarrow> mark_all_mines (sorted_list_of_fset ms) st)
      in (case safes of None \<Rightarrow> st1
          | Some _ \<Rightarrow>
              mark_all_safes (sorted_list_of_fset (cells (knowledge (fst st1) ! i))) st1))"

definition update_pass :: "ai \<Rightarrow> ai \<times> nat" where
  "update_pass a = fold update_sentence [0..<length (knowledge a)] (a, 0)"

text \<open>The number of (constraint, cell) memberships of a knowledge base.\<close>

definition membership :: "sentence list \<Rightarrow> nat" where
  "membership kb = sum_list (map (\<lambda>s. fcard (cells s)) kb)"

text \<open>The exceptions of Python that the code can raise.\<close>

datatype py_error = ValueError | RecursionError

text \<open>
  \<open>update_with_new_sentence\<close> calls itself while a pass changed something, one call
  nested in the other.  Python gives every call a frame and raises \<open>RecursionError\<close>
  when the stack would pass the interpreter's recursion limit.  How many nested calls
  of the function still fit depends on that limit and on the depth of the caller, so
  it is the parameter \<open>room\<close>.  The calls a pass itself makes return before the
  recursive call; the frames they need are taken to be there whenever there is room
  for the pass.  The engine is mutated in place, so when the exception is raised the
  engine stays as the passes that ran have left it: the error carries that state.
\<close>

fun update_with_new_sentence :: "nat \<Rightarrow> ai \<Rightarrow> py_error \<times> ai + ai" where
  "update_with_new_sentence 0 a = Inl (RecursionError, a)"
| "update_with_new_sentence (Suc room) a =
     (case update_pass a of
        (a', changed_things) \<Rightarrow>
          if changed_things > 0 then update_with_new_sentence room a' else Inr a')"

text \<open>The engine as a call has left it, whether it returned or raised.\<close>

fun engine_of :: "py_error \<times> ai + ai \<Rightarrow> ai" where
  "engine_of (Inl (e, a)) = a"
| "engine_of (Inr a) = a"

text \<open>The state after \<open>n\<close> full passes, used to count passes.\<close>

fun passes :: "nat \<Rightarrow> ai \<Rightarrow> ai" where
  "passes 0 a = a"
| "passes (Suc n) a = passes n (fst (update_pass a))"

text \<open>
  \<open>get_subset_knowledge\<close>.  The body of the two nested loops for one pair
  \<open>(sent_1, sent_2)\<close>; \<open>kb\<close> is \<open>self.knowledge\<close>, which the loops never assign, and the
  state is \<open>(changed_things, new_knowledge)\<close>.  Each list comprehension is built from
  \<open>self.knowledge\<close>.
\<close>

definition subset_pair ::
  "sentence list \<Rightarrow> sentence \<Rightarrow> sentence \<Rightarrow> nat \<times> sentence list \<Rightarrow> nat \<times> sentence list" where
  "subset_pair kb sent_1 sent_2 st =
     (let cells_1 = cells sent_1;
          cells_2 = cells sent_2;
          count_1 = count sent_1;
          count_2 = count sent_2
      in if cells_1 \<noteq> cells_2 \<and> fcard cells_1 \<noteq> 0 \<and> fcard cells_2 \<noteq> 0 then
           (let st1 =
                  (if cells_1 |\<subseteq>| cells_2 then
                     (let new_sent = \<lparr>cells = cells_2 |-| cells_1, count = count_2 - count_1\<rparr>
                      in (fst st + 1,
                          map (\<lambda>sent. if cells sent \<noteq> cells_2 then sent else new_sent) kb))
                   else st)
            in if cells_2 |\<subseteq>| cells_1 then
                 (let new_sent = \<lparr>cells = cells_1 |-| cells_2, count = count_1 - count_2\<rparr>
                  in (fst st1 + 1,
                      map (\<lambda>sent. if cells sent \<noteq> cells_1 then sent else new_sent) kb))
               else st1)
         else st)"

definition subset_scan :: "sentence list \<Rightarrow> nat \<times> sentence list" where
  "subset_scan kb =
     fold (\<lambda>sent_1. fold (\<lambda>sent_2. subset_pair kb sent_1 sent_2) kb) kb (0, [])"

definition get_subset_knowledge :: "ai \<Rightarrow> ai" where
  "get_subset_knowledge a =
     (case subset_scan (knowledge a) of
        (changed_things, new_knowledge) \<Rightarrow>
          if changed_things > 0 then a\<lparr>knowledge := new_knowledge\<rparr> else a)"

definition add_knowledge :: "nat \<Rightarrow> cell \<Rightarrow> int \<Rightarrow> ai \<Rightarrow> py_error \<times> ai + ai" where
  "add_knowledge room cell n a =
     (let a1 = a\<lparr>moves_made := finsert cell (moves_made a)\<rparr>;
          a2 = mark_safe cell a1;
          neighbours = get_neighbours cell a2;
          sentence = \<lparr>cells = neighbours, count = n\<rparr>;
          a3 = a2\<lparr>knowledge := knowledge a2 @ [sentence]\<rparr>
      in case update_with_new_sentence room a3 of
           Inl err \<Rightarrow> Inl err
         | Inr a4 \<Rightarrow> Inr (get_subset_knowledge a4))"

text \<open>
  \<open>make_safe_move\<close> walks \<open>self.safes\<close> in the set's iteration order, which Python
  leaves to the hash table.  The order is a parameter: \<open>order\<close> is the sequence in
  which the loop meets the cells.  Falling off the loop returns \<open>None\<close>.
\<close>

definition make_safe_move :: "cell list \<Rightarrow> ai \<Rightarrow> cell option" where
  "make_safe_move order a = find (\<lambda>move. move |\<notin>| moves_made a) order"

text \<open>
  \<open>make_random_move\<close>: the candidate list is built by the two loops over \<open>range(8)\<close>;
  \<open>random.choice\<close> returns the element at a random index below the length, taken here
  from the raw draw \<open>r\<close>.
\<close>

definition all_possible_cells :: "ai \<Rightarrow> cell list" where
  "all_possible_cells a =
     filter (\<lambda>c. c |\<notin>| moves_made a \<and> c |\<notin>| mines a)
       (concat (map (\<lambda>i. map (\<lambda>j. (i, j)) [0..7]) [0..7]))"

definition make_random_move :: "nat \<Rightarrow> ai \<Rightarrow> cell option" where
  "make_random_move r a =
     (let cs = all_possible_cells a
      in if cs \<noteq> [] then Some (cs ! (r mod length cs)) else None)"

subsection \<open>class Minesweeper\<close>

text \<open>The fields \<open>height\<close>, \<open>width\<close> and \<open>mines\<close> carry a suffix, the engine has
  fields of the same names.\<close>

record minesweeper =
  height_ms :: int
  width_ms :: int
  mines_ms :: "cell fset"
  board :: "bool list list"
  mines_found :: "cell fset"

text \<open>\<open>random.randrange(n)\<close> raises \<open>ValueError\<close> on an empty range and otherwise
  returns a number below \<open>n\<close>, here the raw draw \<open>r\<close> reduced modulo \<open>n\<close>.\<close>

definition randrange :: "int \<Rightarrow> nat \<Rightarrow> py_error + int" where
  "randrange n r = (if n \<le> 0 then Inl ValueError else Inr (int r mod n))"

definition empty_field :: "int \<Rightarrow> int \<Rightarrow> bool list list" where
  "empty_field h w = replicate (nat h) (replicate (nat w) False)"

text \<open>
  The loop \<open>while len(self.mines) != mines\<close>.  Each round consumes one pair of raw
  draws; the list of draws is the randomness supplied so far, and \<open>None\<close> means that
  the loop is still running when it is used up.  The indices \<open>i\<close>, \<open>j\<close> come from
  \<open>randrange\<close>, hence lie inside the field built before.
\<close>

fun add_mines ::
  "int \<Rightarrow> int \<Rightarrow> int \<Rightarrow> (nat \<times> nat) list \<Rightarrow> cell fset \<times> bool list list
     \<Rightarrow> (py_error + cell fset \<times> bool list list) option" where
  "add_mines h w n [] (ms, b) =
     (if int (fcard ms) \<noteq> n then None else Some (Inr (ms, b)))"
| "add_mines h w n ((r1, r2) # draws) (ms, b) =
     (if int (fcard ms) \<noteq> n then
        (case randrange h r1 of
           Inl e \<Rightarrow> Some (Inl e)
         | Inr i \<Rightarrow>
            (case randrange w r2 of
               Inl e \<Rightarrow> Some (Inl e)
             | Inr j \<Rightarrow>
                 if \<not> b ! nat i ! nat j
                 then add_mines h w n draws
                        (finsert (i, j) ms, b[nat i := (b ! nat i)[nat j := True]])
                 else add_mines h w n draws (ms, b)))
      else Some (Inr (ms, b)))"

definition new_minesweeper ::
  "int \<Rightarrow> int \<Rightarrow> int \<Rightarrow> (nat \<times> nat) list \<Rightarrow> (py_error + minesweeper) option" where
  "new_minesweeper h w n draws =
     (case add_mines h w n draws ({||}, empty_field h w) of
        None \<Rightarrow> None
      | Some (Inl e) \<Rightarrow> Some (Inl e)
      | Some (Inr (ms, b)) \<Rightarrow>
          Some (Inr \<lparr>height_ms = h, width_ms = w, mines_ms = ms, board = b,
                     mines_found = {||}\<rparr>))"

text \<open>\<open>is_mine\<close> reads \<open>self.board[i][j]\<close>; it is used on cells inside the field only.\<close>

definition is_mine :: "minesweeper \<Rightarrow> cell \<Rightarrow> bool" where
  "is_mine g cell = board g ! nat (fst cell) ! nat (snd cell)"

definition nearby_mines :: "minesweeper \<Rightarrow> cell \<Rightarrow> int" where
  "nearby_mines g cell =
     fold (\<lambda>(i, j) count.
             if (i, j) = cell then count
             else if 0 \<le> i \<and> i < height_ms g \<and> 0 \<le> j \<and> j < width_ms g
                  then (if board g ! nat i ! nat j then count + 1 else count)
                  else count)
          (concat (map (\<lambda>i. map (\<lambda>j. (i, j)) [snd cell - 1..snd cell + 1])
                       [fst cell - 1..fst cell + 1]))
          0"

section \<open>Notions used to state the properties\<close>

text \<open>A cell lies inside the grid the engine was configured with.\<close>

definition in_bounds :: "ai \<Rightarrow> cell \<Rightarrow> bool" where
  "in_bounds a c = (0 \<le> fst c \<and> fst c < height a \<and> 0 \<le> snd c \<and> snd c < width a)"

text \<open>A sequence of \<open>add_knowledge\<close> calls, each on the state the previous one left and
  with the same room for recursion.  An exception ends the sequence.\<close>

fun observe_all :: "nat \<Rightarrow> (cell \<times> int) list \<Rightarrow> ai \<Rightarrow> py_error \<times> ai + ai" where
  "observe_all room [] a = Inr a"
| "observe_all room ((c, n) # rest) a =
     (case add_knowledge room c n a of
        Inl err \<Rightarrow> Inl err
      | Inr a' \<Rightarrow> observe_all room rest a')"

text \<open>The cells of the field that hold a mine, read from \<open>board\<close> as \<open>nearby_mines\<close>
  reads it.\<close>

definition true_mines :: "minesweeper \<Rightarrow> cell set" where
  "true_mines g =
     {c. 0 \<le> fst c \<and> fst c < height_ms g \<and> 0 \<le> snd c \<and> snd c < width_ms g
         \<and> board g ! nat (fst c) ! nat (snd c)}"

text \<open>
  The preconditions of the interface for a call sequence.  Each call is made for a
  safe cell, as the docstring of \<open>add_knowledge\<close> has it; the cell is in bounds, it is
  not in the engine's mine set when the call is made, and the count is the one the
  board reports for it.  Nothing is asked of the calls after one that raised, which
  are not made.
\<close>

fun interface_ok :: "minesweeper \<Rightarrow> nat \<Rightarrow> (cell \<times> int) list \<Rightarrow> ai \<Rightarrow> bool" where
  "interface_ok g room [] a = True"
| "interface_ok g room ((c, n) # rest) a =
     (in_bounds a c \<and> \<not> is_mine g c \<and> c |\<notin>| mines a \<and> n = nearby_mines g c
      \<and> (case add_knowledge room c n a of
            Inl err \<Rightarrow> True
          | Inr a' \<Rightarrow> interface_ok g room rest a'))"

text \<open>A sentence is true on a board when its count is the number of its cells that
  hold a mine; an engine state is sound when all it has recorded is true.\<close>

definition sentence_true :: "minesweeper \<Rightarrow> sentence \<Rightarrow> bool" where
  "sentence_true g s = (int (card (fset (cells s) \<inter> true_mines g)) = count s)"

definition sound :: "minesweeper \<Rightarrow> ai \<Rightarrow> bool" where
  "sound g a =
     (height a = height_ms g \<and> width a = width_ms g
      \<and> fset (mines a) \<subseteq> true_mines g
      \<and> fset (safes a) \<inter> true_mines g = {}
      \<and> list_all (sentence_true g) (knowledge a))"

text \<open>The neighbourhood in the words of the specification: the cells of the grid at
  Chebyshev distance at most one from the centre.\<close>

definition chebyshev :: "cell \<Rightarrow> cell \<Rightarrow> int" where
  "chebyshev c d = max \<bar>fst c - fst d\<bar> \<bar>snd c - snd d\<bar>"

definition grid_block :: "ai \<Rightarrow> cell \<Rightarrow> cell set" where
  "grid_block a c = {d. in_bounds a d \<and> chebyshev c d \<le> 1}"

text \<open>A sentence after marking a whole set of cells as mines, or as safe.\<close>

definition without_mines :: "cell fset \<Rightarrow> sentence \<Rightarrow> sentence" where
  "without_mines F s =
     s\<lparr>cells := cells s |-| F, count := count s - int (fcard (cells s |\<inter>| F))\<rparr>"

definition without_safes :: "cell fset \<Rightarrow> sentence \<Rightarrow> sentence" where
  "without_safes F s = s\<lparr>cells := cells s |-| F\<rparr>"

text \<open>One state extends another: same grid, and no cell has left a set.\<close>

definition extends :: "ai \<Rightarrow> ai \<Rightarrow> bool" where
  "extends a a' =
     (height a' = height a \<and> width a' = width a \<and> moves_made a |\<subseteq>| moves_made a'
      \<and> mines a |\<subseteq>| mines a' \<and> safes a |\<subseteq>| safes a')"

text \<open>A board of two rows and three columns with one mine, in the corner (0, 0).\<close>

definition corner_board :: minesweeper where
  "corner_board =
     \<lparr>height_ms = 2, width_ms = 3, mines_ms = {|(0, 0)|},
      board = [[True, False, False], [False, False, False]], mines_found = {||}\<rparr>"

section \<open>Single sentences\<close>

text \<open>
  C8.  \<open>known_safes\<close> returns the whole cell set exactly when the set is not empty and
  the count is at most zero, and \<open>None\<close> otherwise; on the empty cell set both
  \<open>known_safes\<close> and \<open>known_mines\<close> return \<open>None\<close>, whatever the count.
\<close>

theorem known_safes_spec:
  "known_safes s = (if cells s \<noteq> {||} \<and> count s \<le> 0 then Some (cells s) else None)
   \<and> known_safes \<lparr>cells = {||}, count = n\<rparr> = None
   \<and> known_mines \<lparr>cells = {||}, count = n\<rparr> = None"
  by (simp add: known_safes_def known_mines_def)

lemma sentence_mark_mine_twice:
  "sentence_mark_mine c (sentence_mark_mine c s) = sentence_mark_mine c s"
  by (simp add: sentence_mark_mine_def)

lemma sentence_mark_safe_twice:
  "sentence_mark_safe c (sentence_mark_safe c s) = sentence_mark_safe c s"
  by (simp add: sentence_mark_safe_def)

lemma sentence_mark_mine_removes: "c |\<notin>| cells (sentence_mark_mine c s)"
  by (simp add: sentence_mark_mine_def)


section \<open>Marking a cell in the engine\<close>

text \<open>
  C10.  Marking the same cell as a mine twice in a row gives the state that marking it
  once gives: after the first call no sentence holds the cell any more, so the second
  call finds nothing to remove and no count to decrement.
\<close>

theorem mark_mine_idempotent:
  "mark_mine c (mark_mine c a) = mark_mine c a
   \<and> list_all (\<lambda>s. c |\<notin>| cells s) (knowledge (mark_mine c a))"
  by (simp add: mark_mine_def sentence_mark_mine_twice list_all_iff
      sentence_mark_mine_removes)

section \<open>Random moves\<close>

text \<open>
  C7.  The candidate list of \<open>make_random_move\<close> is built from \<open>range(8)\<close> in both
  directions, whatever the configured height and width.  On a fresh 2 by 2 engine the
  draw 63 returns the cell (7, 7), which is outside the grid.
\<close>

theorem make_random_move_outside_grid:
  "make_random_move 63 (init_ai 2 2) = Some (7, 7) \<and> \<not> in_bounds (init_ai 2 2) (7, 7)"
  by code_simp

section \<open>The direct-resolution fixed point\<close>

lemma distinct_sorted_list_of_fset [simp]: "distinct (sorted_list_of_fset S)"
  by (simp add: sorted_list_of_fset.rep_eq)

lemma length_mark_mine [simp]: "length (knowledge (mark_mine c a)) = length (knowledge a)"
  by (simp add: mark_mine_def)

lemma length_mark_safe [simp]: "length (knowledge (mark_safe c a)) = length (knowledge a)"
  by (simp add: mark_safe_def)

lemma fcard_sentence_mark_mine_le: "fcard (cells (sentence_mark_mine c s)) \<le> fcard (cells s)"
  by (simp add: sentence_mark_mine_def fcard_mono)

lemma fcard_sentence_mark_safe_le: "fcard (cells (sentence_mark_safe c s)) \<le> fcard (cells s)"
  by (simp add: sentence_mark_safe_def fcard_mono)

lemma fcard_sentence_mark_mine_less:
  "c |\<in>| cells s \<Longrightarrow> Suc (fcard (cells (sentence_mark_mine c s))) \<le> fcard (cells s)"
  using fcard_Suc_fminus1[of c "cells s"] by (auto simp: sentence_mark_mine_def)

lemma fcard_sentence_mark_safe_less:
  "c |\<in>| cells s \<Longrightarrow> Suc (fcard (cells (sentence_mark_safe c s))) \<le> fcard (cells s)"
  using fcard_Suc_fminus1[of c "cells s"] by (auto simp: sentence_mark_safe_def)

lemma membership_map_less:
  assumes le: "\<And>s. fcard (cells (f s)) \<le> fcard (cells s)"
    and i: "i < length kb" and less: "Suc (fcard (cells (f (kb ! i)))) \<le> fcard (cells (kb ! i))"
  shows "Suc (membership (map f kb)) \<le> membership kb"
  using i less
proof (induction kb arbitrary: i)
  case Nil
  then show ?case by simp
next
  case (Cons s kb)
  have all: "membership (map f kb) \<le> membership kb"
    unfolding membership_def by (induction kb) (simp_all add: le add_mono)
  show ?case
  proof (cases i)
    case 0
    with Cons.prems all show ?thesis by (simp add: membership_def)
  next
    case (Suc j)
    with Cons.prems have "Suc (membership (map f kb)) \<le> membership kb"
      by (intro Cons.IH[of j]) simp_all
    with le[of s] show ?thesis by (simp add: membership_def)
  qed
qed

lemma membership_mark_mine:
  "i < length (knowledge a) \<Longrightarrow> c |\<in>| cells (knowledge a ! i)
   \<Longrightarrow> Suc (membership (knowledge (mark_mine c a))) \<le> membership (knowledge a)"
  unfolding mark_mine_def
  by (simp add: membership_map_less[where i=i] fcard_sentence_mark_mine_le
      fcard_sentence_mark_mine_less)

lemma membership_mark_safe:
  "i < length (knowledge a) \<Longrightarrow> c |\<in>| cells (knowledge a ! i)
   \<Longrightarrow> Suc (membership (knowledge (mark_safe c a))) \<le> membership (knowledge a)"
  unfolding mark_safe_def
  by (simp add: membership_map_less[where i=i] fcard_sentence_mark_safe_le
      fcard_sentence_mark_safe_less)

lemma cells_after_mark_mine:
  "i < length (knowledge a) \<Longrightarrow>
   cells (knowledge (mark_mine c a) ! i) = cells (knowledge a ! i) |-| {|c|}"
  by (auto simp: mark_mine_def sentence_mark_mine_def)

lemma cells_after_mark_safe:
  "i < length (knowledge a) \<Longrightarrow>
   cells (knowledge (mark_safe c a) ! i) = cells (knowledge a ! i) |-| {|c|}"
  by (auto simp: mark_safe_def sentence_mark_safe_def)

lemma mark_all_mines_measure:
  "distinct xs \<Longrightarrow> set xs \<subseteq> fset (cells (knowledge a ! i)) \<Longrightarrow> i < length (knowledge a)
   \<Longrightarrow> membership (knowledge (fst (mark_all_mines xs (a, ch)))) + snd (mark_all_mines xs (a, ch))
         \<le> membership (knowledge a) + ch
       \<and> length (knowledge (fst (mark_all_mines xs (a, ch)))) = length (knowledge a)
       \<and> snd (mark_all_mines xs (a, ch)) = ch + length xs"
proof (induction xs arbitrary: a ch)
  case Nil
  then show ?case by (simp add: mark_all_mines_def)
next
  case (Cons x xs)
  have x: "x |\<in>| cells (knowledge a ! i)" using Cons.prems by auto
  have sub: "set xs \<subseteq> fset (cells (knowledge (mark_mine x a) ! i))"
    using Cons.prems by (auto simp: cells_after_mark_mine)
  have step: "mark_all_mines (x # xs) (a, ch) = mark_all_mines xs (mark_mine x a, ch + 1)"
    by (simp add: mark_all_mines_def)
  from Cons.IH[of "mark_mine x a" "ch + 1", OF _ sub] Cons.prems
    membership_mark_mine[OF _ x] 
  show ?case unfolding step by fastforce
qed

lemma mark_all_safes_measure:
  "distinct xs \<Longrightarrow> set xs \<subseteq> fset (cells (knowledge a ! i)) \<Longrightarrow> i < length (knowledge a)
   \<Longrightarrow> membership (knowledge (fst (mark_all_safes xs (a, ch)))) + snd (mark_all_safes xs (a, ch))
         \<le> membership (knowledge a) + ch
       \<and> length (knowledge (fst (mark_all_safes xs (a, ch)))) = length (knowledge a)
       \<and> snd (mark_all_safes xs (a, ch)) = ch + length xs"
proof (induction xs arbitrary: a ch)
  case Nil
  then show ?case by (simp add: mark_all_safes_def)
next
  case (Cons x xs)
  have x: "x |\<in>| cells (knowledge a ! i)" using Cons.prems by auto
  have sub: "set xs \<subseteq> fset (cells (knowledge (mark_safe x a) ! i))"
    using Cons.prems by (auto simp: cells_after_mark_safe)
  have step: "mark_all_safes (x # xs) (a, ch) = mark_all_safes xs (mark_safe x a, ch + 1)"
    by (simp add: mark_all_safes_def)
  from Cons.IH[of "mark_safe x a" "ch + 1", OF _ sub] Cons.prems
    membership_mark_safe[OF _ x] 
  show ?case unfolding step by fastforce
qed

lemma update_sentence_measure:
  assumes i: "i < length (knowledge (fst st))"
  shows "membership (knowledge (fst (update_sentence i st))) + snd (update_sentence i st)
           \<le> membership (knowledge (fst st)) + snd st
         \<and> length (knowledge (fst (update_sentence i st))) = length (knowledge (fst st))"
proof -
  define st1 where "st1 = (case known_mines (knowledge (fst st) ! i) of None \<Rightarrow> st
     | Some ms \<Rightarrow> mark_all_mines (sorted_list_of_fset ms) st)"
  have one: "membership (knowledge (fst st1)) + snd st1 \<le> membership (knowledge (fst st)) + snd st
      \<and> length (knowledge (fst st1)) = length (knowledge (fst st))"
  proof (cases "known_mines (knowledge (fst st) ! i)")
    case None
    then show ?thesis by (simp add: st1_def)
  next
    case (Some ms)
    then have ms: "ms = cells (knowledge (fst st) ! i)"
      by (simp add: known_mines_def split: if_splits)
    from mark_all_mines_measure[of "sorted_list_of_fset ms" "fst st" i "snd st"] i ms Some
    show ?thesis by (simp add: st1_def)
  qed
  have res: "update_sentence i st = (case known_safes (knowledge (fst st) ! i) of None \<Rightarrow> st1
     | Some _ \<Rightarrow> mark_all_safes (sorted_list_of_fset (cells (knowledge (fst st1) ! i))) st1)"
    unfolding update_sentence_def st1_def Let_def by (rule refl)
  show ?thesis
  proof (cases "known_safes (knowledge (fst st) ! i)")
    case None
    with one show ?thesis unfolding res by simp
  next
    case (Some ss)
    from mark_all_safes_measure[of "sorted_list_of_fset (cells (knowledge (fst st1) ! i))"
        "fst st1" i "snd st1"] one i Some
    show ?thesis unfolding res by simp
  qed
qed










section \<open>The cell sets only grow\<close>

lemma extends_refl [simp]: "extends a a"
  by (simp add: extends_def)

lemma extends_trans: "extends a b \<Longrightarrow> extends b c \<Longrightarrow> extends a c"
  by (auto simp: extends_def)

lemma extends_mark_mine: "extends a (mark_mine c a)"
  by (auto simp: extends_def mark_mine_def)

lemma extends_mark_safe: "extends a (mark_safe c a)"
  by (auto simp: extends_def mark_safe_def)

lemma extends_mark_all_mines: "extends (fst st) (fst (mark_all_mines xs st))"
proof (induction xs arbitrary: st)
  case Nil
  then show ?case by (simp add: mark_all_mines_def)
next
  case (Cons x xs)
  have "mark_all_mines (x # xs) st = mark_all_mines xs (mark_mine x (fst st), snd st + 1)"
    by (simp add: mark_all_mines_def case_prod_beta)
  with Cons[of "(mark_mine x (fst st), snd st + 1)"] extends_mark_mine[of "fst st" x]
  show ?case by (auto intro: extends_trans)
qed

lemma extends_mark_all_safes: "extends (fst st) (fst (mark_all_safes xs st))"
proof (induction xs arbitrary: st)
  case Nil
  then show ?case by (simp add: mark_all_safes_def)
next
  case (Cons x xs)
  have "mark_all_safes (x # xs) st = mark_all_safes xs (mark_safe x (fst st), snd st + 1)"
    by (simp add: mark_all_safes_def case_prod_beta)
  with Cons[of "(mark_safe x (fst st), snd st + 1)"] extends_mark_safe[of "fst st" x]
  show ?case by (auto intro: extends_trans)
qed

lemma extends_update_sentence: "extends (fst st) (fst (update_sentence i st))"
  unfolding update_sentence_def Let_def
  by (auto split: option.splits intro: extends_trans extends_mark_all_mines
      extends_mark_all_safes)

lemma extends_fold_update_sentence: "extends (fst st) (fst (fold update_sentence is st))"
proof (induction "is" arbitrary: st)
  case Nil
  then show ?case by simp
next
  case (Cons i "is")
  from Cons[of "update_sentence i st"] extends_update_sentence[of st i]
  show ?case by (auto intro: extends_trans)
qed

lemma extends_update_pass: "extends a (fst (update_pass a))"
  using extends_fold_update_sentence[of "(a, 0)"] by (simp add: update_pass_def)

lemma extends_passes: "extends a (passes n a)"
proof (induction n arbitrary: a)
  case 0
  then show ?case by simp
next
  case (Suc n)
  from Suc[of "fst (update_pass a)"] extends_update_pass[of a]
  show ?case by (auto intro: extends_trans)
qed

lemma extends_update_with_new_sentence:
  "extends a (engine_of (update_with_new_sentence room a))"
proof (induction room arbitrary: a)
  case 0
  then show ?case by simp
next
  case (Suc room)
  from Suc[of "fst (update_pass a)"] extends_update_pass[of a]
  have "extends a (engine_of (update_with_new_sentence room (fst (update_pass a))))"
    by (rule extends_trans[rotated])
  with extends_update_pass[of a] show ?case by (simp add: case_prod_beta)
qed

lemma extends_get_subset_knowledge: "extends a (get_subset_knowledge a)"
  by (auto simp: get_subset_knowledge_def extends_def split: prod.splits)

lemma engine_of_add_knowledge:
  "engine_of (add_knowledge room c n a) =
     (let a2 = mark_safe c (a\<lparr>moves_made := finsert c (moves_made a)\<rparr>);
          a3 = a2\<lparr>knowledge := knowledge a2 @ [\<lparr>cells = get_neighbours c a2, count = n\<rparr>]\<rparr>
      in case update_with_new_sentence room a3 of
           Inl err \<Rightarrow> engine_of (update_with_new_sentence room a3)
         | Inr a4 \<Rightarrow> get_subset_knowledge a4)"
  by (simp add: add_knowledge_def Let_def split: sum.splits)

lemma extends_add_knowledge: "extends a (engine_of (add_knowledge room c n a))"
proof -
  let ?a1 = "a\<lparr>moves_made := finsert c (moves_made a)\<rparr>"
  let ?a2 = "mark_safe c ?a1"
  let ?a3 = "?a2\<lparr>knowledge := knowledge ?a2 @ [\<lparr>cells = get_neighbours c ?a2, count = n\<rparr>]\<rparr>"
  have a3: "extends a ?a3" using extends_mark_safe[of ?a1 c]
    by (auto simp: extends_def)
  have up: "extends ?a3 (engine_of (update_with_new_sentence room ?a3))"
    by (rule extends_update_with_new_sentence)
  show ?thesis
  proof (cases "update_with_new_sentence room ?a3")
    case (Inl err)
    with extends_trans[OF a3 up] show ?thesis
      by (simp add: engine_of_add_knowledge Let_def)
  next
    case (Inr a4)
    with up have "extends ?a3 a4" by simp
    from extends_trans[OF a3 extends_trans[OF this extends_get_subset_knowledge[of a4]]] Inr
    show ?thesis by (simp add: engine_of_add_knowledge Let_def)
  qed
qed

lemma extends_observe_all: "extends a (engine_of (observe_all room calls a))"
proof (induction calls arbitrary: a)
  case Nil
  then show ?case by simp
next
  case (Cons x calls)
  obtain c n where x: "x = (c, n)" by (cases x)
  show ?case
  proof (cases "add_knowledge room c n a")
    case (Inl err)
    with extends_add_knowledge[of a room c n] x show ?thesis by simp
  next
    case (Inr a1)
    with extends_add_knowledge[of a room c n] have "extends a a1" by simp
    from extends_trans[OF this Cons.IH[of a1]] Inr x show ?thesis by simp
  qed
qed

lemma observe_all_append:
  "observe_all room (xs @ ys) a =
     (case observe_all room xs a of Inl err \<Rightarrow> Inl err | Inr a1 \<Rightarrow> observe_all room ys a1)"
  by (induction xs arbitrary: a) (auto split: sum.splits)

section \<open>Sound states stay sound\<close>

lemma sentence_true_mark_mine:
  assumes c: "c \<in> true_mines g" and t: "sentence_true g s"
  shows "sentence_true g (sentence_mark_mine c s)"
proof (cases "c |\<in>| cells s")
  case False
  with t show ?thesis by (simp add: sentence_mark_mine_def)
next
  case True
  have eq: "(fset (cells s) - {c}) \<inter> true_mines g = (fset (cells s) \<inter> true_mines g) - {c}"
    by auto
  have "c \<in> fset (cells s) \<inter> true_mines g" using True c by simp
  then have "card ((fset (cells s) \<inter> true_mines g) - {c}) = card (fset (cells s) \<inter> true_mines g) - 1"
    and "card (fset (cells s) \<inter> true_mines g) > 0"
    by (auto simp: card_gt_0_iff)
  with t True show ?thesis
    by (auto simp: sentence_mark_mine_def sentence_true_def eq)
qed

lemma sentence_true_mark_safe:
  assumes c: "c \<notin> true_mines g" and t: "sentence_true g s"
  shows "sentence_true g (sentence_mark_safe c s)"
proof -
  have "(fset (cells s) - {c}) \<inter> true_mines g = fset (cells s) \<inter> true_mines g"
    using c by auto
  with t show ?thesis
    by (auto simp: sentence_mark_safe_def sentence_true_def)
qed

lemma sound_mark_mine: "c \<in> true_mines g \<Longrightarrow> sound g a \<Longrightarrow> sound g (mark_mine c a)"
  by (auto simp: sound_def mark_mine_def list_all_iff sentence_true_mark_mine)

lemma sound_mark_safe: "c \<notin> true_mines g \<Longrightarrow> sound g a \<Longrightarrow> sound g (mark_safe c a)"
  by (auto simp: sound_def mark_safe_def list_all_iff sentence_true_mark_safe)

lemma sound_mark_all_mines:
  "set xs \<subseteq> true_mines g \<Longrightarrow> sound g (fst st) \<Longrightarrow> sound g (fst (mark_all_mines xs st))"
proof (induction xs arbitrary: st)
  case Nil
  then show ?case by (simp add: mark_all_mines_def)
next
  case (Cons x xs)
  have step: "mark_all_mines (x # xs) st = mark_all_mines xs (mark_mine x (fst st), snd st + 1)"
    by (simp add: mark_all_mines_def case_prod_beta)
  from Cons.prems have "sound g (mark_mine x (fst st))" by (simp add: sound_mark_mine)
  with Cons.IH[of "(mark_mine x (fst st), snd st + 1)"] Cons.prems
  show ?case unfolding step by simp
qed

lemma sound_mark_all_safes:
  "set xs \<inter> true_mines g = {} \<Longrightarrow> sound g (fst st) \<Longrightarrow> sound g (fst (mark_all_safes xs st))"
proof (induction xs arbitrary: st)
  case Nil
  then show ?case by (simp add: mark_all_safes_def)
next
  case (Cons x xs)
  have step: "mark_all_safes (x # xs) st = mark_all_safes xs (mark_safe x (fst st), snd st + 1)"
    by (simp add: mark_all_safes_def case_prod_beta)
  from Cons.prems have "sound g (mark_safe x (fst st))" by (simp add: sound_mark_safe)
  with Cons.IH[of "(mark_safe x (fst st), snd st + 1)"] Cons.prems
  show ?case unfolding step by simp
qed

lemma known_mines_true:
  assumes "sentence_true g s" and "known_mines s = Some ms"
  shows "fset ms \<subseteq> true_mines g"
proof -
  from assms have ms: "ms = cells s" and "int (fcard (cells s)) = count s"
    by (auto simp: known_mines_def split: if_splits)
  with assms have "card (fset (cells s) \<inter> true_mines g) = card (fset (cells s))"
    by (simp add: sentence_true_def fcard.rep_eq)
  then have "fset (cells s) \<inter> true_mines g = fset (cells s)"
    by (intro card_subset_eq) auto
  with ms show ?thesis by auto
qed

lemma known_safes_true:
  assumes "sentence_true g s" and "known_safes s = Some ss"
  shows "fset (cells s) \<inter> true_mines g = {}"
proof -
  from assms have "count s \<le> 0" by (auto simp: known_safes_def split: if_splits)
  moreover from assms have "int (card (fset (cells s) \<inter> true_mines g)) = count s"
    by (simp add: sentence_true_def)
  ultimately have "card (fset (cells s) \<inter> true_mines g) = 0"
    by linarith
  moreover have "finite (fset (cells s) \<inter> true_mines g)" by simp
  ultimately show ?thesis by (simp only: card_0_eq)
qed

lemma known_exclusive:
  assumes "known_mines s = Some ms"
  shows "known_safes s = None"
proof -
  have "fcard (cells s) \<noteq> 0 \<and> int (fcard (cells s)) = count s"
    using assms unfolding known_mines_def by (meson option.distinct(1))
  then have "0 < count s" by linarith
  then show ?thesis by (simp add: known_safes_def)
qed

lemma sound_update_sentence:
  assumes i: "i < length (knowledge (fst st))" and s: "sound g (fst st)"
  shows "sound g (fst (update_sentence i st))"
proof -
  from i s have t: "sentence_true g (knowledge (fst st) ! i)"
    by (simp add: sound_def list_all_length)
  show ?thesis
  proof (cases "known_mines (knowledge (fst st) ! i)")
    case (Some ms)
    from known_mines_true[OF t Some] s
    have "sound g (fst (mark_all_mines (sorted_list_of_fset ms) st))"
      by (intro sound_mark_all_mines) simp_all
    with Some known_exclusive[OF Some] show ?thesis
      by (simp add: update_sentence_def)
  next
    case None
    show ?thesis
    proof (cases "known_safes (knowledge (fst st) ! i)")
      case None': None
      with None s show ?thesis by (simp add: update_sentence_def)
    next
      case (Some ss)
      from known_safes_true[OF t Some] s
      have "sound g (fst (mark_all_safes (sorted_list_of_fset (cells (knowledge (fst st) ! i))) st))"
        by (intro sound_mark_all_safes) simp_all
      with None Some show ?thesis by (simp add: update_sentence_def)
    qed
  qed
qed

lemma sound_fold_update_sentence:
  "\<forall>i\<in>set is. i < length (knowledge (fst st)) \<Longrightarrow> sound g (fst st)
   \<Longrightarrow> sound g (fst (fold update_sentence is st))"
proof (induction "is" arbitrary: st)
  case Nil
  then show ?case by simp
next
  case (Cons i "is")
  from Cons.prems have i: "i < length (knowledge (fst st))" by simp
  from Cons.prems update_sentence_measure[OF i]
  have "\<forall>j\<in>set is. j < length (knowledge (fst (update_sentence i st)))" by simp
  from Cons.IH[OF this sound_update_sentence[OF i Cons.prems(2)]] show ?case by simp
qed

lemma sound_update_pass: "sound g a \<Longrightarrow> sound g (fst (update_pass a))"
  using sound_fold_update_sentence[of "[0..<length (knowledge a)]" "(a, 0)" g]
  by (simp add: update_pass_def)

lemma sound_passes: "sound g a \<Longrightarrow> sound g (passes n a)"
  by (induction n arbitrary: a) (simp_all add: sound_update_pass)

lemma sound_update_with_new_sentence:
  "sound g a \<Longrightarrow> sound g (engine_of (update_with_new_sentence room a))"
proof (induction room arbitrary: a)
  case 0
  then show ?case by simp
next
  case (Suc room)
  from Suc.IH[OF sound_update_pass[OF Suc.prems]] sound_update_pass[OF Suc.prems]
  show ?case by (simp add: case_prod_beta)
qed

lemma derived_sentence_true:
  assumes t1: "sentence_true g s1" and t2: "sentence_true g s2"
    and sub: "cells s1 |\<subseteq>| cells s2"
  shows "sentence_true g \<lparr>cells = cells s2 |-| cells s1, count = count s2 - count s1\<rparr>"
proof -
  let ?M = "true_mines g"
  have eq: "(fset (cells s2) - fset (cells s1)) \<inter> ?M
              = (fset (cells s2) \<inter> ?M) - (fset (cells s1) \<inter> ?M)"
    by auto
  have subs: "fset (cells s1) \<inter> ?M \<subseteq> fset (cells s2) \<inter> ?M"
    using sub by (auto simp: less_eq_fset.rep_eq)
  then have le: "card (fset (cells s1) \<inter> ?M) \<le> card (fset (cells s2) \<inter> ?M)"
    by (intro card_mono) auto
  have "card ((fset (cells s2) \<inter> ?M) - (fset (cells s1) \<inter> ?M))
          = card (fset (cells s2) \<inter> ?M) - card (fset (cells s1) \<inter> ?M)"
    using subs by (intro card_Diff_subset) auto
  with t1 t2 le show ?thesis
    by (simp add: sentence_true_def eq of_nat_diff)
qed

lemma sound_subset_pair:
  assumes kb: "list_all (sentence_true g) kb" and s1: "s1 \<in> set kb" and s2: "s2 \<in> set kb"
    and st: "list_all (sentence_true g) (snd st)"
  shows "list_all (sentence_true g) (snd (subset_pair kb s1 s2 st))"
proof -
  from kb s1 s2 have t1: "sentence_true g s1" and t2: "sentence_true g s2"
    by (auto simp: list_all_iff)
  show ?thesis
    using kb st derived_sentence_true[OF t1 t2] derived_sentence_true[OF t2 t1]
    by (auto simp: subset_pair_def Let_def list_all_iff)
qed

lemma sound_subset_scan:
  assumes kb: "list_all (sentence_true g) kb"
  shows "list_all (sentence_true g) (snd (subset_scan kb))"
  unfolding subset_scan_def
proof (rule fold_invariant[where Q = "\<lambda>s. s \<in> set kb"])
  show "list_all (sentence_true g) (snd (0::nat, []::sentence list))" by simp
next
  fix s1 and st :: "nat \<times> sentence list" assume s1: "s1 \<in> set kb" and st: "list_all (sentence_true g) (snd st)"
  show "list_all (sentence_true g) (snd (fold (subset_pair kb s1) kb st))"
    by (rule fold_invariant[where Q = "\<lambda>s. s \<in> set kb"])
      (simp_all add: st sound_subset_pair[OF kb s1])
qed simp

lemma sound_get_subset_knowledge: "sound g a \<Longrightarrow> sound g (get_subset_knowledge a)"
  using sound_subset_scan[of g "knowledge a"]
  by (auto simp: get_subset_knowledge_def sound_def split: prod.splits)

section \<open>Neighbours and the reported count\<close>

lemma fset_get_neighbours:
  "fset (get_neighbours c a) =
     ({(if fst c = 0 then fst c else fst c - 1) ..
       (if fst c = 0 then fst c + 1 else if fst c = height a - 1 then height a - 1
        else fst c + 1)}
      \<times> {(if snd c = 0 then snd c else snd c - 1) ..
         (if snd c = 0 then snd c + 1 else if snd c = width a - 1 then width a - 1
          else snd c + 1)})
     - fset (safes a)"
  by (auto simp: get_neighbours_def Let_def fset_of_list.rep_eq)

lemma fold_count:
  "fold (\<lambda>x n. if P x then n + 1 else n) xs (k::int) = k + int (length (filter P xs))"
  by (induction xs arbitrary: k) simp_all

lemma nearby_mines_card:
  "nearby_mines g c =
     int (card (true_mines g \<inter> ({fst c - 1..fst c + 1} \<times> {snd c - 1..snd c + 1} - {c})))"
proof -
  let ?P = "\<lambda>x. x \<noteq> c \<and> x \<in> true_mines g"
  let ?xs = "List.product [fst c - 1..fst c + 1] [snd c - 1..snd c + 1]"
  have f: "(\<lambda>(i, j) count.
             if (i, j) = c then count
             else if 0 \<le> i \<and> i < height_ms g \<and> 0 \<le> j \<and> j < width_ms g
                  then (if board g ! nat i ! nat j then count + 1 else count)
                  else count) = (\<lambda>x n. if ?P x then n + 1 else n)"
    by (auto simp: fun_eq_iff true_mines_def)
  have "nearby_mines g c = int (length (filter ?P ?xs))"
    unfolding nearby_mines_def f product_concat_map[symmetric] by (simp add: fold_count)
  also have "length (filter ?P ?xs) = card ({x. ?P x} \<inter> set ?xs)"
    by (intro distinct_length_filter distinct_product) simp_all
  also have "{x. ?P x} \<inter> set ?xs
      = true_mines g \<inter> ({fst c - 1..fst c + 1} \<times> {snd c - 1..snd c + 1} - {c})"
    by auto
  finally show ?thesis .
qed

lemma new_sentence_true:
  assumes s: "sound g a" and b: "in_bounds a c" and c: "c |\<in>| safes a"
  shows "sentence_true g \<lparr>cells = get_neighbours c a, count = nearby_mines g c\<rparr>"
proof -
  have hw: "height a = height_ms g" "width a = width_ms g"
    and disj: "fset (safes a) \<inter> true_mines g = {}"
    using s by (simp_all add: sound_def)
  have "fset (get_neighbours c a) \<inter> true_mines g
      = true_mines g \<inter> ({fst c - 1..fst c + 1} \<times> {snd c - 1..snd c + 1} - {c})"
    (is "?L = ?R")
  proof (rule set_eqI)
    fix d :: cell
    obtain i j where d: "d = (i, j)" by (cases d)
    have dc: "d \<in> true_mines g \<Longrightarrow> d \<noteq> c"
      using c disj by auto
    have ds: "d \<in> true_mines g \<Longrightarrow> d |\<notin>| safes a"
      using disj by auto
    have grid: "d \<in> true_mines g \<Longrightarrow> 0 \<le> i \<and> i < height a \<and> 0 \<le> j \<and> j < width a"
      using hw by (simp add: true_mines_def d)
    show "d \<in> ?L \<longleftrightarrow> d \<in> ?R"
    proof (cases "d \<in> true_mines g")
      case False
      then show ?thesis by simp
    next
      case True
      from grid[OF True] b dc[OF True] ds[OF True] True show ?thesis
        unfolding fset_get_neighbours in_bounds_def d
        by (auto split: if_splits)
    qed
  qed
  then show ?thesis
    by (simp add: sentence_true_def nearby_mines_card)
qed

section \<open>Sequences of observations\<close>

lemma corner_board_constructed: "new_minesweeper 2 3 1 [(0, 0)] = Some (Inr corner_board)"
  by code_simp

lemma true_mines_is_mine:
  "c \<in> true_mines g \<longleftrightarrow>
     0 \<le> fst c \<and> fst c < height_ms g \<and> 0 \<le> snd c \<and> snd c < width_ms g \<and> is_mine g c"
  by (simp add: true_mines_def is_mine_def)

lemma sound_add_knowledge:
  assumes s: "sound g a" and b: "in_bounds a c" and m: "\<not> is_mine g c"
  shows "sound g (engine_of (add_knowledge room c (nearby_mines g c) a))"
proof -
  let ?a1 = "a\<lparr>moves_made := finsert c (moves_made a)\<rparr>"
  let ?a2 = "mark_safe c ?a1"
  let ?new = "\<lparr>cells = get_neighbours c ?a2, count = nearby_mines g c\<rparr>"
  let ?a3 = "?a2\<lparr>knowledge := knowledge ?a2 @ [?new]\<rparr>"
  have c: "c \<notin> true_mines g" using m by (simp add: true_mines_is_mine)
  have s1: "sound g ?a1" using s by (simp add: sound_def)
  have s2: "sound g ?a2" by (rule sound_mark_safe[OF c s1])
  have "in_bounds ?a2 c" using b by (simp add: in_bounds_def mark_safe_def)
  moreover have "c |\<in>| safes ?a2" by (simp add: mark_safe_def)
  ultimately have "sentence_true g ?new" by (rule new_sentence_true[OF s2])
  with s2 have "sound g ?a3" by (simp add: sound_def)
  then have up: "sound g (engine_of (update_with_new_sentence room ?a3))"
    by (rule sound_update_with_new_sentence)
  show ?thesis
  proof (cases "update_with_new_sentence room ?a3")
    case (Inl err)
    with up show ?thesis by (simp add: engine_of_add_knowledge Let_def)
  next
    case (Inr a4)
    with up have "sound g a4" by simp
    with Inr show ?thesis
      by (simp add: engine_of_add_knowledge Let_def sound_get_subset_knowledge)
  qed
qed

lemma sound_observe_all:
  "sound g a \<Longrightarrow> interface_ok g room calls a
   \<Longrightarrow> sound g (engine_of (observe_all room calls a))"
proof (induction calls arbitrary: a)
  case Nil
  then show ?case by simp
next
  case (Cons x calls)
  obtain c n where x: "x = (c, n)" by (cases x)
  from Cons.prems(2) x have b: "in_bounds a c" and m: "\<not> is_mine g c"
    and n: "n = nearby_mines g c"
    by simp_all
  from sound_add_knowledge[OF Cons.prems(1) b m, of room] n
  have one: "sound g (engine_of (add_knowledge room c n a))" by simp
  show ?case
  proof (cases "add_knowledge room c n a")
    case (Inl err)
    with one x show ?thesis by simp
  next
    case (Inr a1)
    with one have s1: "sound g a1" by simp
    from Cons.prems(2) x Inr have "interface_ok g room calls a1" by simp
    from Cons.IH[OF s1 this] Inr x show ?thesis by simp
  qed
qed

lemma sound_init_ai: "sound g (init_ai (height_ms g) (width_ms g))"
  by (simp add: sound_def init_ai_def)

lemma sound_disjoint: "sound g a \<Longrightarrow> safes a |\<inter>| mines a = {||}"
  by (auto simp: sound_def)

lemma interface_ok_prefix: "interface_ok g room (xs @ ys) a \<Longrightarrow> interface_ok g room xs a"
proof (induction xs arbitrary: a)
  case Nil
  then show ?case by simp
next
  case (Cons x xs)
  obtain c n where x: "x = (c, n)" by (cases x)
  show ?case
  proof (cases "add_knowledge room c n a")
    case (Inl err)
    with Cons.prems x show ?thesis by simp
  next
    case (Inr a1)
    with Cons.prems x have "interface_ok g room (xs @ ys) a1" by simp
    from Cons.IH[OF this] Cons.prems x Inr show ?thesis by simp
  qed
qed

text \<open>
  C1.  Take any run of calls and any longer run that begins with it, from any state
  and with any room for recursion.  The safe set and the mine set the engine is left
  with after the shorter run are contained in those after the longer one, whether the
  calls returned or one of them raised.  When the runs start from the fresh engine of
  a board and the calls keep the preconditions of the interface, the two sets are
  disjoint after each run.  Within one call the sets only grow as well, so an overlap
  in the middle of a call would still be there when the call ends.
\<close>

theorem observe_all_grows_and_separates:
  "safes (engine_of (observe_all room xs a))
      |\<subseteq>| safes (engine_of (observe_all room (xs @ ys) a))
   \<and> mines (engine_of (observe_all room xs a))
      |\<subseteq>| mines (engine_of (observe_all room (xs @ ys) a))
   \<and> (a = init_ai (height_ms g) (width_ms g) \<and> interface_ok g room (xs @ ys) a
      \<longrightarrow> safes (engine_of (observe_all room xs a))
             |\<inter>| mines (engine_of (observe_all room xs a)) = {||}
          \<and> safes (engine_of (observe_all room (xs @ ys) a))
             |\<inter>| mines (engine_of (observe_all room (xs @ ys) a)) = {||})"
proof -
  have grow: "extends (engine_of (observe_all room xs a))
                (engine_of (observe_all room (xs @ ys) a))"
  proof (cases "observe_all room xs a")
    case (Inl err)
    then show ?thesis by (simp add: observe_all_append)
  next
    case (Inr a1)
    with extends_observe_all[of a1 room ys] show ?thesis
      by (simp add: observe_all_append)
  qed
  from grow have g1: "safes (engine_of (observe_all room xs a))
      |\<subseteq>| safes (engine_of (observe_all room (xs @ ys) a))"
    and g2: "mines (engine_of (observe_all room xs a))
      |\<subseteq>| mines (engine_of (observe_all room (xs @ ys) a))"
    by (simp_all add: extends_def)
  have disj: "a = init_ai (height_ms g) (width_ms g) \<and> interface_ok g room (xs @ ys) a
      \<longrightarrow> safes (engine_of (observe_all room xs a))
             |\<inter>| mines (engine_of (observe_all room xs a)) = {||}
          \<and> safes (engine_of (observe_all room (xs @ ys) a))
             |\<inter>| mines (engine_of (observe_all room (xs @ ys) a)) = {||}"
  proof (intro impI, elim conjE)
    assume init: "a = init_ai (height_ms g) (width_ms g)"
      and ok: "interface_ok g room (xs @ ys) a"
    have s: "sound g a" unfolding init by (rule sound_init_ai)
    have "sound g (engine_of (observe_all room xs a))"
      by (rule sound_observe_all[OF s interface_ok_prefix[OF ok]])
    moreover have "sound g (engine_of (observe_all room (xs @ ys) a))"
      by (rule sound_observe_all[OF s ok])
    ultimately show "safes (engine_of (observe_all room xs a))
             |\<inter>| mines (engine_of (observe_all room xs a)) = {||}
          \<and> safes (engine_of (observe_all room (xs @ ys) a))
             |\<inter>| mines (engine_of (observe_all room (xs @ ys) a)) = {||}"
      by (simp add: sound_disjoint)
  qed
  show ?thesis by (rule conjI[OF g1 conjI[OF g2 disj]])
qed

theorem observe_all_grows_and_separates_witness:
  "interface_ok corner_board 1000 ([((1, 2), 0)] @ [((1, 1), 1)]) (init_ai 2 3)
   \<and> safes (engine_of (observe_all 1000 [((1, 2), 0)] (init_ai 2 3)))
      |\<subseteq>| safes (engine_of (observe_all 1000 ([((1, 2), 0)] @ [((1, 1), 1)]) (init_ai 2 3)))
   \<and> safes (engine_of (observe_all 1000 ([((1, 2), 0)] @ [((1, 1), 1)]) (init_ai 2 3)))
      |\<inter>| mines (engine_of (observe_all 1000 ([((1, 2), 0)] @ [((1, 1), 1)]) (init_ai 2 3)))
      = {||}
   \<and> interface_ok corner_board 1 ([((1, 2), 0)] @ [((1, 1), 1)]) (init_ai 2 3)
   \<and> safes (engine_of (observe_all 1 ([((1, 2), 0)] @ [((1, 1), 1)]) (init_ai 2 3)))
      |\<inter>| mines (engine_of (observe_all 1 ([((1, 2), 0)] @ [((1, 1), 1)]) (init_ai 2 3)))
      = {||}"
proof -
  have h: "interface_ok corner_board 1000 ([((1, 2), 0)] @ [((1, 1), 1)]) (init_ai 2 3)"
    by code_simp
  have h1: "interface_ok corner_board 1 ([((1, 2), 0)] @ [((1, 1), 1)]) (init_ai 2 3)"
    by code_simp
  have d: "init_ai 2 3 = init_ai (height_ms corner_board) (width_ms corner_board)"
    by (simp add: corner_board_def)
  note big = observe_all_grows_and_separates
    [of 1000 "[((1, 2), 0)]" "init_ai 2 3" "[((1, 1), 1)]" corner_board]
  note small = observe_all_grows_and_separates
    [of 1 "[((1, 2), 0)]" "init_ai 2 3" "[((1, 1), 1)]" corner_board]
  from big have g: "safes (engine_of (observe_all 1000 [((1, 2), 0)] (init_ai 2 3)))
      |\<subseteq>| safes (engine_of (observe_all 1000 ([((1, 2), 0)] @ [((1, 1), 1)]) (init_ai 2 3)))"
    by (rule conjunct1)
  from big have "init_ai 2 3 = init_ai (height_ms corner_board) (width_ms corner_board)
      \<and> interface_ok corner_board 1000 ([((1, 2), 0)] @ [((1, 1), 1)]) (init_ai 2 3)
      \<longrightarrow> safes (engine_of (observe_all 1000 [((1, 2), 0)] (init_ai 2 3)))
             |\<inter>| mines (engine_of (observe_all 1000 [((1, 2), 0)] (init_ai 2 3))) = {||}
          \<and> safes (engine_of (observe_all 1000 ([((1, 2), 0)] @ [((1, 1), 1)]) (init_ai 2 3)))
             |\<inter>| mines (engine_of
                  (observe_all 1000 ([((1, 2), 0)] @ [((1, 1), 1)]) (init_ai 2 3))) = {||}"
    by (elim conjE)
  from mp[OF this conjI[OF d h]]
  have b: "safes (engine_of (observe_all 1000 ([((1, 2), 0)] @ [((1, 1), 1)]) (init_ai 2 3)))
      |\<inter>| mines (engine_of (observe_all 1000 ([((1, 2), 0)] @ [((1, 1), 1)]) (init_ai 2 3)))
      = {||}"
    by (rule conjunct2)
  from small have "init_ai 2 3 = init_ai (height_ms corner_board) (width_ms corner_board)
      \<and> interface_ok corner_board 1 ([((1, 2), 0)] @ [((1, 1), 1)]) (init_ai 2 3)
      \<longrightarrow> safes (engine_of (observe_all 1 [((1, 2), 0)] (init_ai 2 3)))
             |\<inter>| mines (engine_of (observe_all 1 [((1, 2), 0)] (init_ai 2 3))) = {||}
          \<and> safes (engine_of (observe_all 1 ([((1, 2), 0)] @ [((1, 1), 1)]) (init_ai 2 3)))
             |\<inter>| mines (engine_of
                  (observe_all 1 ([((1, 2), 0)] @ [((1, 1), 1)]) (init_ai 2 3))) = {||}"
    by (elim conjE)
  from mp[OF this conjI[OF d h1]]
  have c: "safes (engine_of (observe_all 1 ([((1, 2), 0)] @ [((1, 1), 1)]) (init_ai 2 3)))
      |\<inter>| mines (engine_of (observe_all 1 ([((1, 2), 0)] @ [((1, 1), 1)]) (init_ai 2 3)))
      = {||}"
    by (rule conjunct2)
  show ?thesis by (rule conjI[OF h conjI[OF g conjI[OF b conjI[OF h1 c]]]])
qed

text \<open>With room for one call only, the first observation on that board raises after
  its first pass; the engine it leaves has already classified three cells.\<close>

lemma observe_all_raises:
  "observe_all 1 ([((1, 2), 0)] @ [((1, 1), 1)]) (init_ai 2 3)
     = Inl (RecursionError,
            \<lparr>height = 2, width = 3, moves_made = {|(1, 2)|}, mines = {||},
             safes = {|(0, 1), (0, 2), (1, 1), (1, 2)|},
             knowledge = [\<lparr>cells = {||}, count = 0\<rparr>]\<rparr>)"
  by code_simp

text \<open>
  C6.  For a cell inside the grid, the part of \<open>get_neighbours\<close> that lies inside the
  grid is the block of cells at Chebyshev distance at most one, the centre included,
  without the known safe cells.  The centre is in the result exactly when it is not
  known to be safe.  When the grid has at least two rows and two columns, nothing
  else is in the result.
\<close>

theorem get_neighbours_block:
  assumes b: "in_bounds a c"
  shows "fset (get_neighbours c a) \<inter> {d. in_bounds a d} = grid_block a c - fset (safes a)
     \<and> (c |\<in>| get_neighbours c a \<longleftrightarrow> c |\<notin>| safes a)
     \<and> (2 \<le> height a \<and> 2 \<le> width a
        \<longrightarrow> fset (get_neighbours c a) = grid_block a c - fset (safes a))"
proof (intro conjI impI)
  show "fset (get_neighbours c a) \<inter> {d. in_bounds a d} = grid_block a c - fset (safes a)"
    using b unfolding fset_get_neighbours grid_block_def in_bounds_def chebyshev_def
    by (auto split: if_splits)
  show "c |\<in>| get_neighbours c a \<longleftrightarrow> c |\<notin>| safes a"
  proof -
    have "c \<in> fset (get_neighbours c a) \<longleftrightarrow> c \<notin> fset (safes a)"
      using b unfolding fset_get_neighbours in_bounds_def
      by (cases c) (auto split: if_splits)
    then show ?thesis by simp
  qed
  show "fset (get_neighbours c a) = grid_block a c - fset (safes a)"
    if "2 \<le> height a \<and> 2 \<le> width a"
    using b that unfolding fset_get_neighbours grid_block_def in_bounds_def chebyshev_def
    by (auto split: if_splits)
qed

theorem get_neighbours_block_witness:
  "in_bounds (init_ai 8 8) (0, 7)
   \<and> fset (get_neighbours (0, 7) (init_ai 8 8))
       = grid_block (init_ai 8 8) (0, 7) - fset (safes (init_ai 8 8))
   \<and> (0, 7) |\<in>| get_neighbours (0, 7) (init_ai 8 8)"
proof -
  have h: "in_bounds (init_ai 8 8) (0, 7)" by (simp add: in_bounds_def init_ai_def)
  have t: "2 \<le> height (init_ai 8 8) \<and> 2 \<le> width (init_ai 8 8)"
    by (simp add: init_ai_def)
  have s: "(0, 7) |\<notin>| safes (init_ai 8 8)" by (simp add: init_ai_def)
  note inst = get_neighbours_block[OF h]
  from inst have "fset (get_neighbours (0, 7) (init_ai 8 8))
       = grid_block (init_ai 8 8) (0, 7) - fset (safes (init_ai 8 8))"
    using t by simp
  moreover from inst s have "(0, 7) |\<in>| get_neighbours (0, 7) (init_ai 8 8)"
    by simp
  ultimately show ?thesis using h by (intro conjI)
qed

text \<open>On a fresh 8 by 8 engine the neighbours of (3, 3) contain (3, 3) itself.\<close>

theorem get_neighbours_centre_counterexample:
  "(3, 3) |\<in>| get_neighbours (3, 3) (init_ai 8 8) \<and> in_bounds (init_ai 8 8) (3, 3)"
  by code_simp

section \<open>Subset reduction followed by direct resolution\<close>

lemma four_cells:
  assumes d: "distinct [c1, c2, c3, c4 :: cell]"
  shows "fcard {|c1, c2, c3|} = 3" and "fcard {|c1, c2, c3, c4|} = 4"
    and "{|c1, c2, c3|} \<noteq> {|c1, c2, c3, c4|}" and "{|c1, c2, c3, c4|} \<noteq> {|c1, c2, c3|}"
    and "{|c1, c2, c3|} |\<subseteq>| {|c1, c2, c3, c4|}"
    and "\<not> {|c1, c2, c3, c4|} |\<subseteq>| {|c1, c2, c3|}"
    and "{|c1, c2, c3, c4|} |-| {|c1, c2, c3|} = {|c4|}"
    and "c4 |\<notin>| {|c1, c2, c3|}"
  using d by (auto simp: fcard_finsert_if)

lemma subset_pair_equal: "cells s1 = cells s2 \<Longrightarrow> subset_pair kb s1 s2 st = st"
  by (simp add: subset_pair_def)

lemma subset_pair_fires_right:
  assumes "cells s1 \<noteq> cells s2" and "cells s1 \<noteq> {||}" and "cells s1 |\<subseteq>| cells s2"
  shows "subset_pair kb s1 s2 st =
     (fst st + 1,
      map (\<lambda>sent. if cells sent \<noteq> cells s2 then sent
                   else \<lparr>cells = cells s2 |-| cells s1, count = count s2 - count s1\<rparr>) kb)"
proof -
  from assms have "cells s2 \<noteq> {||}" and "\<not> cells s2 |\<subseteq>| cells s1" by auto
  with assms show ?thesis by (simp add: subset_pair_def Let_def)
qed

lemma subset_pair_fires_left:
  assumes "cells s1 \<noteq> cells s2" and "cells s2 \<noteq> {||}" and "cells s2 |\<subseteq>| cells s1"
  shows "subset_pair kb s1 s2 st =
     (fst st + 1,
      map (\<lambda>sent. if cells sent \<noteq> cells s1 then sent
                   else \<lparr>cells = cells s1 |-| cells s2, count = count s1 - count s2\<rparr>) kb)"
proof -
  from assms have "cells s1 \<noteq> {||}" and "\<not> cells s1 |\<subseteq>| cells s2" by auto
  with assms show ?thesis by (simp add: subset_pair_def Let_def)
qed

lemma subset_scan_two:
  assumes ne: "cells A \<noteq> cells B" and A: "cells A \<noteq> {||}" and sub: "cells A |\<subseteq>| cells B"
    and kb: "kb = [A, B] \<or> kb = [B, A]"
  shows "subset_scan kb =
     (2, map (\<lambda>sent. if cells sent \<noteq> cells B then sent
                      else \<lparr>cells = cells B |-| cells A, count = count B - count A\<rparr>) kb)"
proof -
  have AA: "subset_pair kb A A st = st" and BB: "subset_pair kb B B st = st" for st
    by (simp_all add: subset_pair_equal)
  note AB = subset_pair_fires_right[OF ne A sub, of kb]
  note BA = subset_pair_fires_left[OF ne[symmetric] A sub, of kb]
  from kb show ?thesis
  proof
    assume "kb = [A, B]"
    then have "subset_scan kb
        = subset_pair kb B B (subset_pair kb B A (subset_pair kb A B (subset_pair kb A A (0, []))))"
      by (simp add: subset_scan_def)
    then show ?thesis by (simp add: AA BB AB BA)
  next
    assume "kb = [B, A]"
    then have "subset_scan kb
        = subset_pair kb A A (subset_pair kb A B (subset_pair kb B A (subset_pair kb B B (0, []))))"
      by (simp add: subset_scan_def)
    then show ?thesis by (simp add: AA BB AB BA)
  qed
qed

lemma sorted_list_of_fset_single [simp]: "sorted_list_of_fset {|c|} = [c]"
  by (simp add: sorted_list_of_fset.rep_eq)

lemma update_sentence_idle:
  "known_mines (knowledge (fst st) ! i) = None \<Longrightarrow> known_safes (knowledge (fst st) ! i) = None
   \<Longrightarrow> update_sentence i st = st"
  by (simp add: update_sentence_def)

lemma update_sentence_single_mine:
  assumes "known_mines (knowledge (fst st) ! i) = Some {|c|}"
  shows "update_sentence i st = (mark_mine c (fst st), snd st + 1)"
  using assms known_exclusive[OF assms]
  by (simp add: update_sentence_def mark_all_mines_def case_prod_beta)

lemma fold_update_sentence_idle:
  assumes "\<forall>i\<in>set is. known_mines (knowledge a ! i) = None \<and> known_safes (knowledge a ! i) = None"
  shows "fold update_sentence is (a, n) = (a, n)"
  using assms by (induction "is") (simp_all add: update_sentence_idle)

lemma update_pass_idle:
  assumes "\<forall>s\<in>set (knowledge a). known_mines s = None \<and> known_safes s = None"
  shows "update_pass a = (a, 0)"
  unfolding update_pass_def using assms by (intro fold_update_sentence_idle) simp

lemma update_resolves_single:
  assumes kb: "knowledge a = [\<lparr>cells = {|c1, c2, c3|}, count = 1\<rparr>, \<lparr>cells = {|c4|}, count = 1\<rparr>]
      \<or> knowledge a = [\<lparr>cells = {|c4|}, count = 1\<rparr>, \<lparr>cells = {|c1, c2, c3|}, count = 1\<rparr>]"
    and d: "distinct [c1, c2, c3, c4 :: cell]"
  shows "update_with_new_sentence (Suc (Suc room)) a = Inr (mark_mine c4 a)"
    and "engine_of (update_with_new_sentence (Suc room) a) = mark_mine c4 a"
proof -
  note f = four_cells[OF d]
  define A :: sentence where "A = \<lparr>cells = {|c1, c2, c3|}, count = 1\<rparr>"
  define N :: sentence where "N = \<lparr>cells = {|c4|}, count = 1\<rparr>"
  define E :: sentence where "E = \<lparr>cells = {||}, count = 0\<rparr>"
  have A: "known_mines A = None" "known_safes A = None" "sentence_mark_mine c4 A = A"
    using f by (simp_all add: A_def known_mines_def known_safes_def sentence_mark_mine_def)
  have N: "known_mines N = Some {|c4|}" "sentence_mark_mine c4 N = E"
    by (simp_all add: N_def E_def known_mines_def sentence_mark_mine_def fcard_finsert_if)
  have E: "known_mines E = None" "known_safes E = None"
    by (simp_all add: E_def known_mines_def known_safes_def)
  from kb have kb': "knowledge a = [A, N] \<or> knowledge a = [N, A]"
    by (simp add: A_def N_def)
  let ?a' = "mark_mine c4 a"
  have kb2: "knowledge ?a' = [A, E] \<or> knowledge ?a' = [E, A]"
    using kb' by (auto simp: mark_mine_def A N)
  have p1: "update_pass a = (?a', 1)"
    using kb'
  proof
    assume k: "knowledge a = [A, N]"
    have "update_pass a = update_sentence 1 (update_sentence 0 (a, 0))"
      by (simp add: update_pass_def k numeral_2_eq_2)
    also have "update_sentence 0 (a, 0) = (a, 0)"
      by (rule update_sentence_idle) (simp_all add: k A)
    also have "update_sentence 1 (a, 0) = (?a', 1)"
      using update_sentence_single_mine[of "(a, 0)" 1 c4] by (simp add: k N)
    finally show ?thesis .
  next
    assume k: "knowledge a = [N, A]"
    have "update_pass a = update_sentence 1 (update_sentence 0 (a, 0))"
      by (simp add: update_pass_def k numeral_2_eq_2)
    also have "update_sentence 0 (a, 0) = (?a', 1)"
      using update_sentence_single_mine[of "(a, 0)" 0 c4] by (simp add: k N)
    also have "update_sentence 1 (?a', 1) = (?a', 1)"
      by (rule update_sentence_idle) (simp_all add: k A mark_mine_def)
    finally show ?thesis .
  qed
  have p2: "update_pass ?a' = (?a', 0)"
    using kb2 by (intro update_pass_idle) (auto simp: A E)
  show "update_with_new_sentence (Suc (Suc room)) a = Inr (mark_mine c4 a)"
    by (simp add: p1 p2)
  show "engine_of (update_with_new_sentence (Suc room) a) = mark_mine c4 a"
    by (cases room) (simp_all add: p1 p2)
qed

text \<open>
  C5.  Let the knowledge base hold exactly the sentence \<open>{c1, c2, c3} = 1\<close> and the
  sentence \<open>{c1, c2, c3, c4} = 2\<close>, in either order, the four cells distinct.  One
  run of \<open>get_subset_knowledge\<close> puts \<open>{c4} = 1\<close> in the place of the larger sentence
  and leaves the smaller one where it is.  \<open>update_with_new_sentence\<close> on the result
  returns whenever there is room for two nested calls, and its mine set is the old one
  with \<open>c4\<close> added; with room for one call the first pass has added \<open>c4\<close> as well
  before the second call raises.
\<close>

theorem subset_then_resolve:
  assumes d: "distinct [c1, c2, c3, c4]"
    and kb: "knowledge a = [\<lparr>cells = {|c1, c2, c3|}, count = 1\<rparr>,
                            \<lparr>cells = {|c1, c2, c3, c4|}, count = 2\<rparr>]
           \<or> knowledge a = [\<lparr>cells = {|c1, c2, c3, c4|}, count = 2\<rparr>,
                             \<lparr>cells = {|c1, c2, c3|}, count = 1\<rparr>]"
  shows "get_subset_knowledge a
           = a\<lparr>knowledge :=
                 map (\<lambda>s. if cells s \<noteq> {|c1, c2, c3, c4|} then s
                          else \<lparr>cells = {|c4|}, count = 1\<rparr>) (knowledge a)\<rparr>
     \<and> (\<exists>a'. update_with_new_sentence (Suc (Suc room)) (get_subset_knowledge a) = Inr a'
            \<and> mines a' = finsert c4 (mines a) \<and> safes a' = safes a)
     \<and> mines (engine_of (update_with_new_sentence (Suc room) (get_subset_knowledge a)))
         = finsert c4 (mines a)"
proof -
  note f = four_cells[OF d]
  define A :: sentence where "A = \<lparr>cells = {|c1, c2, c3|}, count = 1\<rparr>"
  define B :: sentence where "B = \<lparr>cells = {|c1, c2, c3, c4|}, count = 2\<rparr>"
  define N :: sentence where "N = \<lparr>cells = {|c4|}, count = 1\<rparr>"
  have cA: "cells A = {|c1, c2, c3|}" and cB: "cells B = {|c1, c2, c3, c4|}"
    and nA: "count A = 1" and nB: "count B = 2"
    by (simp_all add: A_def B_def)
  have ne: "cells A \<noteq> cells B" and A: "cells A \<noteq> {||}" and sub: "cells A |\<subseteq>| cells B"
    unfolding cA cB using f by simp_all
  have kb': "knowledge a = [A, B] \<or> knowledge a = [B, A]"
    using kb by (simp add: A_def B_def)
  have new: "\<lparr>cells = cells B |-| cells A, count = count B - count A\<rparr> = N"
    unfolding cA cB nA nB N_def using f by simp
  let ?g = "get_subset_knowledge a"
  have g: "?g = a\<lparr>knowledge := map (\<lambda>s. if cells s \<noteq> cells B then s else N) (knowledge a)\<rparr>"
    by (simp add: get_subset_knowledge_def subset_scan_two[OF ne A sub kb'] new)
  have "knowledge ?g = [A, N] \<or> knowledge ?g = [N, A]"
    unfolding g using kb' ne by (elim disjE) simp_all
  then have "knowledge ?g = [\<lparr>cells = {|c1, c2, c3|}, count = 1\<rparr>, \<lparr>cells = {|c4|}, count = 1\<rparr>]
      \<or> knowledge ?g = [\<lparr>cells = {|c4|}, count = 1\<rparr>, \<lparr>cells = {|c1, c2, c3|}, count = 1\<rparr>]"
    by (simp add: A_def N_def)
  note r = update_resolves_single[OF this d]
  have "\<exists>a'. update_with_new_sentence (Suc (Suc room)) ?g = Inr a'
            \<and> mines a' = finsert c4 (mines ?g) \<and> safes a' = safes ?g"
    unfolding r(1) by (simp add: mark_mine_def)
  moreover have "mines (engine_of (update_with_new_sentence (Suc room) ?g))
      = finsert c4 (mines ?g)"
    unfolding r(2) by (simp add: mark_mine_def)
  moreover have "mines ?g = mines a" "safes ?g = safes a"
    by (simp_all add: g)
  ultimately show ?thesis
    unfolding g cB N_def by simp
qed

theorem subset_then_resolve_witness:
  "distinct [(0, 0), (0, 1), (0, 2), (1, 1 :: int) :: cell]
   \<and> get_subset_knowledge
        ((init_ai 8 8)\<lparr>knowledge := [\<lparr>cells = {|(0, 0), (0, 1), (0, 2)|}, count = 1\<rparr>,
              \<lparr>cells = {|(0, 0), (0, 1), (0, 2), (1, 1)|}, count = 2\<rparr>]\<rparr>)
      = (init_ai 8 8)\<lparr>knowledge := [\<lparr>cells = {|(0, 0), (0, 1), (0, 2)|}, count = 1\<rparr>,
              \<lparr>cells = {|(1, 1)|}, count = 1\<rparr>]\<rparr>"
proof -
  have d: "distinct [(0, 0), (0, 1), (0, 2), (1, 1 :: int) :: cell]" by simp
  let ?a = "(init_ai 8 8)\<lparr>knowledge := [\<lparr>cells = {|(0, 0), (0, 1), (0, 2)|}, count = 1\<rparr>,
              \<lparr>cells = {|(0, 0), (0, 1), (0, 2), (1, 1)|}, count = 2\<rparr>]\<rparr>"
  have kb: "knowledge ?a = [\<lparr>cells = {|(0, 0), (0, 1), (0, 2)|}, count = 1\<rparr>,
                            \<lparr>cells = {|(0, 0), (0, 1), (0, 2), (1, 1)|}, count = 2\<rparr>]
           \<or> knowledge ?a = [\<lparr>cells = {|(0, 0), (0, 1), (0, 2), (1, 1)|}, count = 2\<rparr>,
                             \<lparr>cells = {|(0, 0), (0, 1), (0, 2)|}, count = 1\<rparr>]"
    by simp
  have r: "?a\<lparr>knowledge :=
                 map (\<lambda>s. if cells s \<noteq> {|(0, 0), (0, 1), (0, 2), (1, 1)|} then s
                          else \<lparr>cells = {|(1, 1)|}, count = 1\<rparr>) (knowledge ?a)\<rparr>
       = (init_ai 8 8)\<lparr>knowledge := [\<lparr>cells = {|(0, 0), (0, 1), (0, 2)|}, count = 1\<rparr>,
              \<lparr>cells = {|(1, 1)|}, count = 1\<rparr>]\<rparr>"
    by code_simp
  from subset_then_resolve[OF d kb]
  have "get_subset_knowledge ?a = ?a\<lparr>knowledge :=
                 map (\<lambda>s. if cells s \<noteq> {|(0, 0), (0, 1), (0, 2), (1, 1)|} then s
                          else \<lparr>cells = {|(1, 1)|}, count = 1\<rparr>) (knowledge ?a)\<rparr>"
    by (rule conjunct1)
  then have "get_subset_knowledge ?a
       = (init_ai 8 8)\<lparr>knowledge := [\<lparr>cells = {|(0, 0), (0, 1), (0, 2)|}, count = 1\<rparr>,
              \<lparr>cells = {|(1, 1)|}, count = 1\<rparr>]\<rparr>"
    using r by (rule trans)
  with d show ?thesis by (intro conjI)
qed

section \<open>Several reductions in one subset pass\<close>

text \<open>
  C2.  On a 3 by 3 board with its one mine at (1, 1), the cells (0, 1), (2, 0) and
  (0, 0) are observed, each with count 1, with room for a thousand nested calls.  In the third call marking (0, 0) safe and
  appending the new sentence give a state that \<open>update_with_new_sentence\<close> returns
  unchanged, so when \<open>get_subset_knowledge\<close> runs the knowledge base holds \<open>Y\<close>,
  \<open>Z\<close> and \<open>X\<close> with \<open>X = {(1, 0), (1, 1)}\<close> a proper subset of both others.  The pairs that fire for
  \<open>Y\<close> build a list in which \<open>Y\<close> is reduced, the pairs that fire for \<open>Z\<close> build
  another one from the same old knowledge base, and the last list built is the one
  that is kept: \<open>Z\<close> is reduced to \<open>{(2, 1)} = 0\<close>, while \<open>Y\<close> is still there
  unreduced, and its reduction \<open>{(0, 2), (1, 2)} = 0\<close> is not in the result.
\<close>

theorem subset_pass_keeps_last_reduction_only:
  "observe_all 1000 [((0, 1), 1), ((2, 0), 1)] (init_ai 3 3)
     = Inr \<lparr>height = 3, width = 3, moves_made = {|(0, 1), (2, 0)|}, mines = {||},
             safes = {|(0, 1), (2, 0)|},
             knowledge = [\<lparr>cells = {|(0, 0), (0, 2), (1, 0), (1, 1), (1, 2)|}, count = 1\<rparr>,
                          \<lparr>cells = {|(1, 0), (1, 1), (2, 1)|}, count = 1\<rparr>]\<rparr>
   \<and> update_with_new_sentence 1000
       \<lparr>height = 3, width = 3, moves_made = {|(0, 0), (0, 1), (2, 0)|}, mines = {||},
        safes = {|(0, 0), (0, 1), (2, 0)|},
        knowledge = [\<lparr>cells = {|(0, 2), (1, 0), (1, 1), (1, 2)|}, count = 1\<rparr>,
                     \<lparr>cells = {|(1, 0), (1, 1), (2, 1)|}, count = 1\<rparr>,
                     \<lparr>cells = {|(1, 0), (1, 1)|}, count = 1\<rparr>]\<rparr>
     = Inr \<lparr>height = 3, width = 3, moves_made = {|(0, 0), (0, 1), (2, 0)|}, mines = {||},
             safes = {|(0, 0), (0, 1), (2, 0)|},
             knowledge = [\<lparr>cells = {|(0, 2), (1, 0), (1, 1), (1, 2)|}, count = 1\<rparr>,
                          \<lparr>cells = {|(1, 0), (1, 1), (2, 1)|}, count = 1\<rparr>,
                          \<lparr>cells = {|(1, 0), (1, 1)|}, count = 1\<rparr>]\<rparr>
   \<and> get_subset_knowledge
       \<lparr>height = 3, width = 3, moves_made = {|(0, 0), (0, 1), (2, 0)|}, mines = {||},
        safes = {|(0, 0), (0, 1), (2, 0)|},
        knowledge = [\<lparr>cells = {|(0, 2), (1, 0), (1, 1), (1, 2)|}, count = 1\<rparr>,
                     \<lparr>cells = {|(1, 0), (1, 1), (2, 1)|}, count = 1\<rparr>,
                     \<lparr>cells = {|(1, 0), (1, 1)|}, count = 1\<rparr>]\<rparr>
     = \<lparr>height = 3, width = 3, moves_made = {|(0, 0), (0, 1), (2, 0)|}, mines = {||},
        safes = {|(0, 0), (0, 1), (2, 0)|},
        knowledge = [\<lparr>cells = {|(0, 2), (1, 0), (1, 1), (1, 2)|}, count = 1\<rparr>,
                     \<lparr>cells = {|(2, 1)|}, count = 0\<rparr>,
                     \<lparr>cells = {|(1, 0), (1, 1)|}, count = 1\<rparr>]\<rparr>
   \<and> observe_all 1000 [((0, 1), 1), ((2, 0), 1), ((0, 0), 1)] (init_ai 3 3)
     = Inr \<lparr>height = 3, width = 3, moves_made = {|(0, 0), (0, 1), (2, 0)|}, mines = {||},
             safes = {|(0, 0), (0, 1), (2, 0)|},
             knowledge = [\<lparr>cells = {|(0, 2), (1, 0), (1, 1), (1, 2)|}, count = 1\<rparr>,
                          \<lparr>cells = {|(2, 1)|}, count = 0\<rparr>,
                          \<lparr>cells = {|(1, 0), (1, 1)|}, count = 1\<rparr>]\<rparr>"
  by code_simp

section \<open>A board of one row\<close>

text \<open>
  C4.  On an engine of height 1 and width 3 the first branch of the row test in
  \<open>get_neighbours\<close> is taken for row 0, so the \<open>elif\<close> that would cut \<open>down\<close> back
  to the last row is skipped.  After \<open>add_knowledge((0, 0), 0)\<close> has marked (0, 0) safe,
  the neighbours are (0, 1), (1, 0) and (1, 1), the last two outside the grid.  All
  three are marked safe, and \<open>make_safe_move\<close> returns (1, 0) when the set hands that
  cell out first.  Once (0, 1) has been observed too, with its count 1, the safe cells
  not yet played are (1, 0) and (1, 1) alone, and \<open>make_safe_move\<close> returns a cell
  outside the grid in whatever order the set is walked.
\<close>

theorem single_row_neighbours_leave_grid:
  "get_neighbours (0, 0) (mark_safe (0, 0) ((init_ai 1 3)\<lparr>moves_made := {|(0, 0)|}\<rparr>))
     = {|(0, 1), (1, 0), (1, 1)|}
   \<and> add_knowledge 1000 (0, 0) 0 (init_ai 1 3)
     = Inr \<lparr>height = 1, width = 3, moves_made = {|(0, 0)|}, mines = {||},
             safes = {|(0, 0), (0, 1), (1, 0), (1, 1)|},
             knowledge = [\<lparr>cells = {||}, count = 0\<rparr>]\<rparr>
   \<and> make_safe_move [(1, 0), (0, 0), (1, 1), (0, 1)]
       \<lparr>height = 1, width = 3, moves_made = {|(0, 0)|}, mines = {||},
        safes = {|(0, 0), (0, 1), (1, 0), (1, 1)|},
        knowledge = [\<lparr>cells = {||}, count = 0\<rparr>]\<rparr> = Some (1, 0)
   \<and> observe_all 1000 [((0, 0), 0), ((0, 1), 1)] (init_ai 1 3)
     = Inr \<lparr>height = 1, width = 3, moves_made = {|(0, 0), (0, 1)|}, mines = {||},
            safes = {|(0, 0), (0, 1), (1, 0), (1, 1)|},
            knowledge = [\<lparr>cells = {||}, count = 0\<rparr>,
                         \<lparr>cells = {|(0, 2), (1, 2)|}, count = 1\<rparr>]\<rparr>
   \<and> make_safe_move [(0, 0), (0, 1), (1, 0), (1, 1)]
       \<lparr>height = 1, width = 3, moves_made = {|(0, 0), (0, 1)|}, mines = {||},
        safes = {|(0, 0), (0, 1), (1, 0), (1, 1)|},
        knowledge = [\<lparr>cells = {||}, count = 0\<rparr>,
                     \<lparr>cells = {|(0, 2), (1, 2)|}, count = 1\<rparr>]\<rparr> = Some (1, 0)
   \<and> make_safe_move [(1, 1), (1, 0), (0, 1), (0, 0)]
       \<lparr>height = 1, width = 3, moves_made = {|(0, 0), (0, 1)|}, mines = {||},
        safes = {|(0, 0), (0, 1), (1, 0), (1, 1)|},
        knowledge = [\<lparr>cells = {||}, count = 0\<rparr>,
                     \<lparr>cells = {|(0, 2), (1, 2)|}, count = 1\<rparr>]\<rparr> = Some (1, 1)
   \<and> \<not> in_bounds (init_ai 1 3) (1, 0) \<and> \<not> in_bounds (init_ai 1 3) (1, 1)"
  by code_simp

section \<open>Building a board\<close>

lemma randrange_range: "0 < n \<Longrightarrow> \<exists>i. randrange n r = Inr i \<and> 0 \<le> i \<and> i < n"
  by (simp add: randrange_def)

lemma fcard_in_grid:
  assumes "fset ms \<subseteq> {0..<h} \<times> {0..<w}" and "0 < h" and "0 < w"
  shows "int (fcard ms) \<le> h * w"
proof -
  have "card (fset ms) \<le> card ({0..<h} \<times> {0..<w})"
    using assms(1) by (intro card_mono) simp_all
  also have "\<dots> = nat h * nat w" by (simp add: card_cartesian_product)
  finally have "card (fset ms) \<le> nat h * nat w" .
  then have "int (fcard ms) \<le> int (nat h * nat w)"
    unfolding fcard.rep_eq by (rule iffD2[OF of_nat_le_iff])
  moreover have "int (nat h * nat w) = h * w" using assms(2,3) by simp
  ultimately show ?thesis by (rule ord_le_eq_trans)
qed

lemma add_mines_never_done:
  assumes h: "0 < h" and w: "0 < w" and n: "h * w < n"
  shows "fset ms \<subseteq> {0..<h} \<times> {0..<w} \<Longrightarrow> add_mines h w n draws (ms, b) = None"
proof (induction draws arbitrary: ms b)
  case Nil
  from fcard_in_grid[OF Nil h w] n show ?case by simp
next
  case (Cons d draws)
  obtain r1 r2 where d: "d = (r1, r2)" by (cases d)
  from randrange_range[OF h, of r1] obtain i where i: "randrange h r1 = Inr i" "0 \<le> i" "i < h"
    by blast
  from randrange_range[OF w, of r2] obtain j where j: "randrange w r2 = Inr j" "0 \<le> j" "j < w"
    by blast
  have ne: "int (fcard ms) \<noteq> n" using fcard_in_grid[OF Cons.prems h w] n by simp
  have "fset (finsert (i, j) ms) \<subseteq> {0..<h} \<times> {0..<w}"
    using Cons.prems i j by simp
  from Cons.IH[OF this] Cons.IH[OF Cons.prems] ne show ?case
    by (simp add: d i j)
qed

text \<open>
  C9.  The constructor does not compare the number of mines with the size of the
  field.  On a field with at least one row and one column and more mines asked for
  than it has cells, the placement loop is still running after any list of draws: it
  neither returns nor raises.  Only a field without rows or without columns fails at
  once, when a mine is asked for, with the \<open>ValueError\<close> of \<open>randrange\<close> on an empty
  range.
\<close>

theorem new_minesweeper_over_capacity:
  "(0 < h \<and> 0 < w \<and> h * w < n \<longrightarrow> new_minesweeper h w n draws = None)
   \<and> ((h \<le> 0 \<or> w \<le> 0) \<and> n \<noteq> 0
        \<longrightarrow> new_minesweeper h w n (d # draws) = Some (Inl ValueError))"
proof (intro conjI impI)
  assume "0 < h \<and> 0 < w \<and> h * w < n"
  then have "add_mines h w n draws ({||}, empty_field h w) = None"
    by (intro add_mines_never_done) simp_all
  then show "new_minesweeper h w n draws = None"
    by (simp add: new_minesweeper_def)
next
  assume a: "(h \<le> 0 \<or> w \<le> 0) \<and> n \<noteq> 0"
  obtain r1 r2 where d: "d = (r1, r2)" by (cases d)
  from a have "add_mines h w n (d # draws) ({||}, empty_field h w) = Some (Inl ValueError)"
    by (auto simp: d randrange_def)
  then show "new_minesweeper h w n (d # draws) = Some (Inl ValueError)"
    by (simp add: new_minesweeper_def)
qed

theorem new_minesweeper_over_capacity_witness:
  "(0::int) < 1 \<and> (0::int) < 1 \<and> (1::int) * 1 < 2
   \<and> new_minesweeper 1 1 2 [(5, 3), (0, 0), (7, 1)] = None
   \<and> ((0::int) \<le> 0 \<or> (3::int) \<le> 0) \<and> (1::int) \<noteq> 0
   \<and> new_minesweeper 0 3 1 [(5, 3), (0, 0)] = Some (Inl ValueError)"
  using new_minesweeper_over_capacity
      [where h = 1 and w = 1 and n = 2 and draws = "[(5, 3), (0, 0), (7, 1)]"]
    new_minesweeper_over_capacity
      [where h = 0 and w = 3 and n = 1 and d = "(5, 3)" and draws = "[(0, 0)]"]
  by simp

text \<open>Two mines on a field of one cell: after four rounds of draws the constructor
  has neither returned nor raised, whereas one mine is placed by the first round.\<close>

theorem new_minesweeper_no_error_counterexample:
  "new_minesweeper 1 1 2 [(0, 0), (0, 0), (0, 0), (0, 0)] = None
   \<and> new_minesweeper 1 1 1 [(0, 0), (0, 0), (0, 0), (0, 0)]
     = Some (Inr \<lparr>height_ms = 1, width_ms = 1, mines_ms = {|(0, 0)|}, board = [[True]],
                  mines_found = {||}\<rparr>)"
  by code_simp

section \<open>The order in which a set is walked\<close>

lemma without_mines_step:
  assumes "x |\<notin>| F"
  shows "without_mines F (sentence_mark_mine x s) = without_mines (finsert x F) s"
proof (cases "x |\<in>| cells s")
  case True
  have c: "cells s |-| {|x|} |-| F = cells s |-| finsert x F" by auto
  have i: "(cells s |-| {|x|}) |\<inter>| F = cells s |\<inter>| F" using assms by auto
  have "x |\<notin>| cells s |\<inter>| F" using assms by simp
  then have n: "fcard (finsert x (cells s |\<inter>| F)) = Suc (fcard (cells s |\<inter>| F))"
    by (rule fcard_finsert_disjoint)
  have ne: "cells s \<noteq> {||}" using True by auto
  from True show ?thesis
    by (simp add: without_mines_def sentence_mark_mine_def c i n ne)
next
  case False
  then have "cells s |-| finsert x F = cells s |-| F"
    and "cells s |\<inter>| finsert x F = cells s |\<inter>| F" by auto
  with False show ?thesis
    by (simp add: without_mines_def sentence_mark_mine_def)
qed

lemma mark_all_mines_closed:
  "distinct xs \<Longrightarrow>
   mark_all_mines xs (a, ch) =
     (a\<lparr>mines := mines a |\<union>| fset_of_list xs,
        knowledge := map (without_mines (fset_of_list xs)) (knowledge a)\<rparr>,
      ch + length xs)"
proof (induction xs arbitrary: a ch)
  case Nil
  have "map (without_mines {||}) (knowledge a) = knowledge a"
    by (simp add: without_mines_def map_idI)
  then show ?case by (simp add: mark_all_mines_def)
next
  case (Cons x xs)
  then have d: "distinct xs" and x: "x |\<notin>| fset_of_list xs"
    by (simp_all add: fset_of_list.rep_eq)
  have step: "mark_all_mines (x # xs) (a, ch) = mark_all_mines xs (mark_mine x a, ch + 1)"
    by (simp add: mark_all_mines_def)
  have kb: "map (without_mines (fset_of_list xs)) (knowledge (mark_mine x a))
      = map (without_mines (fset_of_list (x # xs))) (knowledge a)"
    by (simp add: mark_mine_def without_mines_step[OF x])
  have ms: "mines (mark_mine x a) |\<union>| fset_of_list xs = mines a |\<union>| fset_of_list (x # xs)"
    by (auto simp: mark_mine_def)
  show ?case
    unfolding step Cons.IH[OF d] kb ms by (simp add: mark_mine_def)
qed

lemma mark_all_mines_any_order:
  assumes "distinct xs" and "distinct ys" and "set xs = set ys"
  shows "mark_all_mines xs st = mark_all_mines ys st"
proof -
  obtain a ch where st: "st = (a, ch)" by (cases st)
  from assms have "fset_of_list xs = fset_of_list ys"
    by (simp add: fset_eq_iff fset_of_list.rep_eq)
  moreover from assms have "length xs = length ys"
    by (metis distinct_card)
  ultimately show ?thesis
    unfolding st by (simp add: mark_all_mines_closed assms)
qed

lemma without_safes_step:
  "without_safes F (sentence_mark_safe x s) = without_safes (finsert x F) s"
proof -
  have "cells s |-| {|x|} |-| F = cells s |-| finsert x F" by auto
  moreover have "x |\<notin>| cells s \<Longrightarrow> cells s |-| finsert x F = cells s |-| F" by auto
  ultimately show ?thesis
    by (simp add: without_safes_def sentence_mark_safe_def)
qed

lemma mark_all_safes_closed:
  "mark_all_safes xs (a, ch) =
     (a\<lparr>safes := safes a |\<union>| fset_of_list xs,
        knowledge := map (without_safes (fset_of_list xs)) (knowledge a)\<rparr>,
      ch + length xs)"
proof (induction xs arbitrary: a ch)
  case Nil
  have "map (without_safes {||}) (knowledge a) = knowledge a"
    by (simp add: without_safes_def map_idI)
  then show ?case by (simp add: mark_all_safes_def)
next
  case (Cons x xs)
  have step: "mark_all_safes (x # xs) (a, ch) = mark_all_safes xs (mark_safe x a, ch + 1)"
    by (simp add: mark_all_safes_def)
  have kb: "map (without_safes (fset_of_list xs)) (knowledge (mark_safe x a))
      = map (without_safes (fset_of_list (x # xs))) (knowledge a)"
    by (simp add: mark_safe_def without_safes_step)
  have ms: "safes (mark_safe x a) |\<union>| fset_of_list xs = safes a |\<union>| fset_of_list (x # xs)"
    by (auto simp: mark_safe_def)
  show ?case
    unfolding step Cons.IH kb ms by (simp add: mark_safe_def)
qed

lemma mark_all_safes_any_order:
  assumes "distinct xs" and "distinct ys" and "set xs = set ys"
  shows "mark_all_safes xs st = mark_all_safes ys st"
proof -
  obtain a ch where st: "st = (a, ch)" by (cases st)
  from assms have "fset_of_list xs = fset_of_list ys"
    by (simp add: fset_eq_iff fset_of_list.rep_eq)
  moreover from assms have "length xs = length ys"
    by (metis distinct_card)
  ultimately show ?thesis
    unfolding st by (simp add: mark_all_safes_closed)
qed

end
